theory Spec2Isabelle
  imports Main
begin

section \<open>The rate limiter of \<open>build-system/tasks/compile.js\<close>\<close>

text \<open>
  The module keeps two variables, \<open>queue\<close> (an array of \<open>start\<close> closures) and
  \<open>inProgress\<close> (a number), and the constant \<open>MAX_PARALLEL_CLOSURE_INVOCATIONS\<close>.
  Every call of \<open>exports.closureCompile\<close> creates one promise and one pair of closures
  \<open>start\<close>/\<open>next\<close>. All \<open>next\<close> closures have the same body and read the same module
  variables; a \<open>start\<close> closure differs from the others only in the arguments it hands
  to \<open>compile\<close> and in the \<open>resolve\<close> callback it calls. A closure is therefore
  identified by the number of its call of \<open>closureCompile\<close>, counted from 0.

  JavaScript runs each call of \<open>closureCompile\<close> and each promise callback to its end
  before the next one begins, so the program is a sequence of turns. The model has one
  event per kind of turn and a state with the module variables, the promises, and a log
  of the effects in the order the code performs them.
\<close>

subsection \<open>Data\<close>

text \<open>The state of a promise returned by \<open>closureCompile\<close>.\<close>

datatype promise_state = Pending | Fulfilled | Rejected

text \<open>
  What is handed to \<open>console.error\<close>. \<open>colors.red\<close> and \<open>formatClosureCompilerError\<close>
  (which calls the library \<open>cli-highlight\<close>) are kept as constructors: the first is
  \<open>colors.red('Compilation error:', e.message)\<close> of the rejection callback in \<open>start\<close>,
  the second is the report of the \<open>'error'\<close> handler of the compiler stream in \<open>compile\<close>
  for the job with the given number.
\<close>

datatype report = CompilationError string | CompilerErrorFor nat string

text \<open>
  The effects, in program order: \<open>queue.push(start)\<close>; a call of the \<open>start\<close> closure of
  a job (the result of \<open>queue.shift()\<close>); \<open>inProgress++\<close> and \<open>inProgress--\<close> with the
  value written; \<open>process.stdout.write('.')\<close>; \<open>resolve()\<close> of a job's promise;
  \<open>console.error\<close>; \<open>process.exit\<close>.
\<close>

datatype action =
    Push nat
  | Start nat
  | Incr int
  | Decr int
  | Dot
  | Resolve nat
  | ConsoleError report
  | Exit int

text \<open>
  \<open>compiling\<close> holds the jobs whose call of \<open>compile\<close> has returned a promise that is
  still pending, with the two callbacks of \<open>start\<close> attached. \<open>streams\<close> holds the jobs
  for which \<open>compile\<close> has been called: \<open>compile\<close> builds the compiler stream of the job
  and puts an \<open>'error'\<close> handler on it, which is never taken off, also not when the
  promise of \<open>compile\<close> settles. \<open>promises\<close> holds, for the
  call number \<open>j\<close> of \<open>closureCompile\<close>, the state of the promise it returned.
  \<open>exit_code\<close> is \<open>Some c\<close> once \<open>process.exit(c)\<close> has been called. \<open>env_TRAVIS\<close> is
  the truth value of \<open>process.env.TRAVIS\<close>.
\<close>

record state =
  queue :: "nat list"
  inProgress :: int
  compiling :: "nat list"
  streams :: "nat list"
  promises :: "promise_state list"
  trace :: "action list"
  exit_code :: "int option"
  env_TRAVIS :: bool

definition MAX_PARALLEL_CLOSURE_INVOCATIONS :: int where
  "MAX_PARALLEL_CLOSURE_INVOCATIONS = 4"

text \<open>The module as loaded: \<open>const queue = []; let inProgress = 0;\<close>.\<close>

definition init :: "bool \<Rightarrow> state" where
  "init t = \<lparr>queue = [], inProgress = 0, compiling = [], streams = [], promises = [],
     trace = [],
     exit_code = None, env_TRAVIS = t\<rparr>"

subsection \<open>The closures of \<open>closureCompile\<close>\<close>

text \<open>
  The bound is a parameter \<open>K\<close> of the model, so that the scenarios of the specification
  with other bounds can be run; the module's value is
  \<open>MAX_PARALLEL_CLOSURE_INVOCATIONS\<close>.

  \<open>start\<close>: \<open>inProgress++\<close>, then \<open>compile(...)\<close> is called and its promise gets the two
  callbacks. \<open>compile\<close> wraps its whole body in \<open>new Promise\<close>, so an exception of the
  body rejects that promise and \<open>start\<close> itself never throws.
\<close>

definition start :: "nat \<Rightarrow> state \<Rightarrow> state" where
  "start j s = s\<lparr>inProgress := inProgress s + 1,
                 compiling := compiling s @ [j],
                 streams := streams s @ [j],
                 trace := trace s @ [Start j, Incr (inProgress s + 1)]\<rparr>"

text \<open>
  \<open>next\<close>: return when the queue is empty; otherwise, if \<open>inProgress\<close> is below the
  bound, \<open>queue.shift()()\<close>. There is one \<open>if\<close> and no loop. The constant is named
  \<open>next'\<close> because \<open>next\<close> is a keyword of the proof language.
\<close>

definition next' :: "int \<Rightarrow> state \<Rightarrow> state" where
  "next' K s =
     (case queue s of
        [] \<Rightarrow> s
      | f # fs \<Rightarrow> if inProgress s < K then start f (s\<lparr>queue := fs\<rparr>) else s)"

text \<open>
  The executor of the promise up to its last statement: the promise of call number
  \<open>length (promises s)\<close> comes into being, pending, and \<open>queue.push(start)\<close> runs.
\<close>

definition enqueue :: "state \<Rightarrow> state" where
  "enqueue s = s\<lparr>queue := queue s @ [length (promises s)],
                 promises := promises s @ [Pending],
                 trace := trace s @ [Push (length (promises s))]\<rparr>"

definition closureCompile :: "int \<Rightarrow> state \<Rightarrow> state" where
  "closureCompile K s = next' K (enqueue s)"

text \<open>The statements of the fulfilment callback of \<open>start\<close>, one by one.\<close>

definition write_dot :: "state \<Rightarrow> state" where
  "write_dot s = (if env_TRAVIS s then s\<lparr>trace := trace s @ [Dot]\<rparr> else s)"

definition decrement :: "state \<Rightarrow> state" where
  "decrement s = s\<lparr>inProgress := inProgress s - 1,
                   trace := trace s @ [Decr (inProgress s - 1)]\<rparr>"

text \<open>
  \<open>resolve()\<close> fulfils a pending promise and does nothing to a settled one.
\<close>

fun fulfil :: "promise_state \<Rightarrow> promise_state" where
  "fulfil Pending = Fulfilled"
| "fulfil p = p"

definition resolve :: "nat \<Rightarrow> state \<Rightarrow> state" where
  "resolve j s = s\<lparr>promises := (promises s)[j := fulfil (promises s ! j)],
                   trace := trace s @ [Resolve j]\<rparr>"

definition on_fulfilled :: "int \<Rightarrow> nat \<Rightarrow> state \<Rightarrow> state" where
  "on_fulfilled K j s = resolve j (next' K (decrement (write_dot s)))"

text \<open>
  The rejection callback of \<open>start\<close>: \<open>console.error(colors.red('Compilation error:',
  e.message)); process.exit(1);\<close>. It captures no \<open>reject\<close>: the executor of
  \<open>closureCompile\<close> takes \<open>resolve\<close> only.
\<close>

definition on_rejected :: "string \<Rightarrow> state \<Rightarrow> state" where
  "on_rejected msg s = s\<lparr>trace := trace s @ [ConsoleError (CompilationError msg), Exit 1],
                         exit_code := Some 1\<rparr>"

text \<open>
  The \<open>'error'\<close> handler that \<open>compile\<close> puts on the compiler stream of job \<open>j\<close>:
  \<open>console.error(colors.red('Compiler error for ' + outputFilename + ':\\n') +
  formatClosureCompilerError(err.message)); process.exit(1);\<close>, where \<open>outputFilename\<close>
  is the one of job \<open>j\<close> and \<open>msg\<close> is \<open>err.message\<close>.
\<close>

definition on_stream_error :: "nat \<Rightarrow> string \<Rightarrow> state \<Rightarrow> state" where
  "on_stream_error j msg s =
     s\<lparr>trace := trace s @ [ConsoleError (CompilerErrorFor j msg), Exit 1],
       exit_code := Some 1\<rparr>"

subsection \<open>The advance operation in the words of the specification\<close>

text \<open>
  The specification describes the advance operation as a loop: while the queue is not
  empty and \<open>inProgress\<close> is below the bound, pop the front of the queue and invoke its
  start function. \<open>advance_spec\<close> is that loop, written from the specification, to be
  compared with \<open>next'\<close>, which is written from the code.
\<close>

function advance_spec :: "int \<Rightarrow> state \<Rightarrow> state" where
  "advance_spec K s =
     (case queue s of
        [] \<Rightarrow> s
      | f # fs \<Rightarrow> if inProgress s < K then advance_spec K (start f (s\<lparr>queue := fs\<rparr>)) else s)"
  by pat_completeness auto
termination
  by (relation "measure (\<lambda>(K, s). length (queue s))") (auto simp: start_def)

declare advance_spec.simps [simp del]

subsection \<open>Turns\<close>

text \<open>
  A turn is a call of \<open>closureCompile\<close> by some caller, or the settling of the promise
  of \<open>compile\<close> of a job, or an \<open>'error'\<close> event of the compiler stream of a job. A
  promise settles once, and only a job that is compiling has a pending promise: for any
  other job the two settling events cannot happen and leave the state as it is. The
  \<open>'error'\<close> handler runs for every job that has a stream, compiling or not; for a job
  without a stream the event cannot happen. \<open>process.exit\<close> ends the process, so after it
  no turn runs at all.
\<close>

datatype event =
    ClosureCompile
  | CompileResolved nat
  | CompileRejected nat string
  | CompilerStreamError nat string

definition settled :: "nat \<Rightarrow> state \<Rightarrow> state" where
  "settled j s = s\<lparr>compiling := remove1 j (compiling s)\<rparr>"

fun handle :: "int \<Rightarrow> event \<Rightarrow> state \<Rightarrow> state" where
  "handle K ClosureCompile s = closureCompile K s"
| "handle K (CompileResolved j) s =
     (if j \<in> set (compiling s) then on_fulfilled K j (settled j s) else s)"
| "handle K (CompileRejected j msg) s =
     (if j \<in> set (compiling s) then on_rejected msg (settled j s) else s)"
| "handle K (CompilerStreamError j msg) s =
     (if j \<in> set (streams s) then on_stream_error j msg s else s)"

definition step :: "int \<Rightarrow> event \<Rightarrow> state \<Rightarrow> state" where
  "step K e s = (if exit_code s = None then handle K e s else s)"

fun run :: "int \<Rightarrow> event list \<Rightarrow> state \<Rightarrow> state" where
  "run K [] s = s"
| "run K (e # es) s = run K es (step K e s)"

subsection \<open>Reading the log\<close>

text \<open>The jobs started, the jobs completed, and the values written to \<open>inProgress\<close>.\<close>

fun starts :: "action list \<Rightarrow> nat list" where
  "starts [] = []"
| "starts (Start j # as) = j # starts as"
| "starts (a # as) = starts as"

fun completed :: "action list \<Rightarrow> nat list" where
  "completed [] = []"
| "completed (Resolve j # as) = j # completed as"
| "completed (a # as) = completed as"

fun counter_values :: "action list \<Rightarrow> int list" where
  "counter_values [] = []"
| "counter_values (Incr v # as) = v # counter_values as"
| "counter_values (Decr v # as) = v # counter_values as"
| "counter_values (a # as) = counter_values as"

text \<open>\<open>started_before xs b a\<close>: in the start order \<open>xs\<close>, \<open>b\<close> starts while \<open>a\<close> has not.\<close>

definition started_before :: "nat list \<Rightarrow> nat \<Rightarrow> nat \<Rightarrow> bool" where
  "started_before xs b a = (b \<in> set (takeWhile (\<lambda>x. x \<noteq> a) xs))"

text \<open>What the fulfilment callback writes to the standard output before anything else.\<close>

definition dots :: "state \<Rightarrow> action list" where
  "dots s = (if env_TRAVIS s then [Dot] else [])"

subsection \<open>The invariant of the turns\<close>

text \<open>
  What holds between any two turns: the jobs started, followed by the jobs queued, are
  the calls of \<open>closureCompile\<close> in their order; \<open>inProgress\<close> is the number of starts
  minus the number of completions, lies between 0 and the bound, and is at the bound
  when a job waits; while the process lives it counts the jobs that are compiling; a
  compiling job has been started and its promise is pending; no promise is rejected;
  every value written to \<open>inProgress\<close> is within the bound; a promise is fulfilled
  exactly when its job has completed.
\<close>

definition invar :: "int \<Rightarrow> state \<Rightarrow> bool" where
  "invar K s \<longleftrightarrow>
     starts (trace s) @ queue s = [0..<length (promises s)] \<and>
     inProgress s = int (length (starts (trace s))) - int (length (completed (trace s))) \<and>
     0 \<le> inProgress s \<and> inProgress s \<le> K \<and>
     (queue s \<noteq> [] \<longrightarrow> inProgress s = K) \<and>
     (exit_code s = None \<longrightarrow> inProgress s = int (length (compiling s))) \<and>
     distinct (compiling s) \<and>
     set (compiling s) \<subseteq> set (starts (trace s)) \<and>
     set (completed (trace s)) \<subseteq> set (starts (trace s)) - set (compiling s) \<and>
     (\<forall>j\<in>set (compiling s). promises s ! j = Pending) \<and>
     Rejected \<notin> set (promises s) \<and>
     (\<forall>v\<in>set (counter_values (trace s)). 0 \<le> v \<and> v \<le> K) \<and>
     (\<forall>j<length (promises s). promises s ! j = Fulfilled \<longleftrightarrow> j \<in> set (completed (trace s)))"

section \<open>Properties\<close>

subsection \<open>Auxiliary facts\<close>

lemma starts_append [simp]: "starts (xs @ ys) = starts xs @ starts ys"
  by (induction xs rule: starts.induct) simp_all

lemma completed_append [simp]: "completed (xs @ ys) = completed xs @ completed ys"
  by (induction xs rule: completed.induct) simp_all

lemma counter_values_append [simp]:
  "counter_values (xs @ ys) = counter_values xs @ counter_values ys"
  by (induction xs rule: counter_values.induct) simp_all

lemma invar_init: "0 \<le> K \<Longrightarrow> invar K (init t)"
  by (simp add: invar_def init_def)

lemma closureCompile_free:
  assumes "queue s = []" "inProgress s < K"
  shows "closureCompile K s =
     s\<lparr>queue := [], inProgress := inProgress s + 1,
       compiling := compiling s @ [length (promises s)],
       streams := streams s @ [length (promises s)],
       promises := promises s @ [Pending],
       trace := trace s @ [Push (length (promises s)), Start (length (promises s)),
                           Incr (inProgress s + 1)]\<rparr>"
  using assms by (simp add: closureCompile_def enqueue_def next'_def start_def)

lemma closureCompile_full:
  assumes "\<not> inProgress s < K"
  shows "closureCompile K s =
     s\<lparr>queue := queue s @ [length (promises s)],
       promises := promises s @ [Pending],
       trace := trace s @ [Push (length (promises s))]\<rparr>"
  using assms by (simp add: closureCompile_def enqueue_def next'_def split: list.splits)

lemma starts_queue_facts:
  assumes "starts (trace s) @ queue s = [0..<n]"
  shows "n \<notin> set (starts (trace s))" "\<forall>j\<in>set (starts (trace s)). j < n"
proof -
  have "set (starts (trace s)) \<subseteq> set [0..<n]"
    using assms by (metis set_append Un_upper1)
  then show "n \<notin> set (starts (trace s))" "\<forall>j\<in>set (starts (trace s)). j < n" by auto
qed

lemma invar_closureCompile:
  assumes "invar K s" "0 \<le> K"
  shows "invar K (closureCompile K s)"
proof (cases "inProgress s < K")
  case True
  with assms have q: "queue s = []" by (auto simp: invar_def)
  from assms have A: "starts (trace s) @ queue s = [0..<length (promises s)]"
    by (simp add: invar_def)
  note F = starts_queue_facts[OF A]
  show ?thesis
    unfolding closureCompile_free[OF q True]
    using assms True q F
    by (auto simp: invar_def nth_append)
next
  case False
  from assms have A: "starts (trace s) @ queue s = [0..<length (promises s)]"
    by (simp add: invar_def)
  note F = starts_queue_facts[OF A]
  show ?thesis
    unfolding closureCompile_full[OF False]
    using assms False F
    by (auto simp: invar_def nth_append)
qed


lemma on_fulfilled_empty:
  assumes "queue s = []"
  shows "on_fulfilled K j s =
     s\<lparr>inProgress := inProgress s - 1,
       promises := (promises s)[j := fulfil (promises s ! j)],
       trace := trace s @ dots s @ [Decr (inProgress s - 1), Resolve j]\<rparr>"
  using assms
  by (simp add: on_fulfilled_def resolve_def next'_def decrement_def write_dot_def dots_def)

lemma on_fulfilled_pop:
  assumes "queue s = q # qs" "inProgress s - 1 < K"
  shows "on_fulfilled K j s =
     s\<lparr>queue := qs, inProgress := inProgress s,
       compiling := compiling s @ [q],
       streams := streams s @ [q],
       promises := (promises s)[j := fulfil (promises s ! j)],
       trace := trace s @ dots s @ [Decr (inProgress s - 1), Start q, Incr (inProgress s),
                                  Resolve j]\<rparr>"
  using assms
  by (simp add: on_fulfilled_def resolve_def next'_def start_def decrement_def write_dot_def
      dots_def)

lemma starts_dots [simp]: "starts (dots s) = []"
  and completed_dots [simp]: "completed (dots s) = []"
  and counter_values_dots [simp]: "counter_values (dots s) = []"
  by (simp_all add: dots_def)


lemma invarI:
  assumes "starts (trace s) @ queue s = [0..<length (promises s)]"
    and "inProgress s = int (length (starts (trace s))) - int (length (completed (trace s)))"
    and "0 \<le> inProgress s" and "inProgress s \<le> K"
    and "queue s \<noteq> [] \<longrightarrow> inProgress s = K"
    and "exit_code s = None \<longrightarrow> inProgress s = int (length (compiling s))"
    and "distinct (compiling s)"
    and "set (compiling s) \<subseteq> set (starts (trace s))"
    and "set (completed (trace s)) \<subseteq> set (starts (trace s)) - set (compiling s)"
    and "\<forall>j\<in>set (compiling s). promises s ! j = Pending"
    and "Rejected \<notin> set (promises s)"
    and "\<forall>v\<in>set (counter_values (trace s)). 0 \<le> v \<and> v \<le> K"
    and "\<forall>j<length (promises s). promises s ! j = Fulfilled \<longleftrightarrow> j \<in> set (completed (trace s))"
  shows "invar K s"
  using assms unfolding invar_def by blast

lemma invarD:
  assumes "invar K s"
  shows "starts (trace s) @ queue s = [0..<length (promises s)]"
    and "inProgress s = int (length (starts (trace s))) - int (length (completed (trace s)))"
    and "0 \<le> inProgress s" and "inProgress s \<le> K"
    and "queue s \<noteq> [] \<longrightarrow> inProgress s = K"
    and "exit_code s = None \<longrightarrow> inProgress s = int (length (compiling s))"
    and "distinct (compiling s)"
    and "set (compiling s) \<subseteq> set (starts (trace s))"
    and "set (completed (trace s)) \<subseteq> set (starts (trace s)) - set (compiling s)"
    and "\<forall>j\<in>set (compiling s). promises s ! j = Pending"
    and "Rejected \<notin> set (promises s)"
    and "\<forall>v\<in>set (counter_values (trace s)). 0 \<le> v \<and> v \<le> K"
    and "\<forall>j<length (promises s). promises s ! j = Fulfilled \<longleftrightarrow> j \<in> set (completed (trace s))"
  using assms unfolding invar_def by blast+

lemma invar_on_fulfilled:
  assumes "invar K s" "exit_code s = None" "j \<in> set (compiling s)"
  shows "invar K (on_fulfilled K j (settled j s))"
proof -
  note I = invarD[OF assms(1)]
  note F = starts_queue_facts[OF I(1)]
  from assms(3) I(8) F have jn: "j < length (promises s)" by auto
  from assms(3) I(10) have jp: "promises s ! j = Pending" by auto
  from assms(3) have len: "0 < length (compiling s)" by (cases "compiling s") auto
  from assms(2) I(6) have ipc: "inProgress s = int (length (compiling s))" by simp
  have dist: "distinct (starts (trace s) @ queue s)" unfolding I(1) by simp
  from I(9) assms(3) have jnc: "j \<notin> set (completed (trace s))" by auto
  have lr: "int (length (remove1 j (compiling s))) = int (length (compiling s)) - 1"
  proof -
    have "length (remove1 j (compiling s)) = length (compiling s) - 1"
      using assms(3) by (simp add: length_remove1)
    with len show ?thesis by linarith
  qed
  from ipc len have ip1: "1 \<le> inProgress s" by linarith
  have sr: "set (remove1 j (compiling s)) = set (compiling s) - {j}"
    using I(7) by simp
  have rej: "Rejected \<notin> set ((promises s)[j := Fulfilled])"
    using I(11) set_update_subset_insert[of "promises s" j Fulfilled] by auto
  have ful: "\<forall>i<length (promises s).
      (promises s)[j := Fulfilled] ! i = Fulfilled \<longleftrightarrow> i = j \<or> i \<in> set (completed (trace s))"
  proof (intro allI impI)
    fix i assume "i < length (promises s)"
    with I(13) jn show "(promises s)[j := Fulfilled] ! i = Fulfilled \<longleftrightarrow>
        i = j \<or> i \<in> set (completed (trace s))"
      by (cases "i = j") simp_all
  qed
  show ?thesis
  proof (cases "queue s")
    case Nil
    then have q: "queue (settled j s) = []" by (simp add: settled_def)
    show ?thesis
      unfolding on_fulfilled_empty[OF q]
      apply (rule invarI)
      subgoal using I(1) Nil by (simp add: settled_def)
      subgoal using I(2) by (simp add: settled_def)
      subgoal using ip1 by (simp add: settled_def)
      subgoal using I(4) by (simp add: settled_def)
      subgoal using Nil by (simp add: settled_def)
      subgoal using ipc lr by (simp add: settled_def)
      subgoal using I(7) by (simp add: settled_def)
      subgoal using I(8) sr by (auto simp add: settled_def)
      subgoal using I(8,9) sr assms(3) by (auto simp add: settled_def)
      subgoal using I(10) sr jp by (auto simp add: settled_def nth_list_update)
      subgoal using rej jp by (simp add: settled_def)
      subgoal using I(12,3,4) ip1 by (auto simp add: settled_def)
      subgoal using ful jp by (simp add: settled_def)
      done
  next
    case (Cons q qs)
    then have q: "queue (settled j s) = q # qs" by (simp add: settled_def)
    from I(4) have ip: "inProgress (settled j s) - 1 < K"
      by (simp add: settled_def)
    from I(5) Cons have ipK: "inProgress s = K" by simp
    from dist Cons have qns: "q \<notin> set (starts (trace s))" by auto
    with I(8) have qnc: "q \<notin> set (compiling s)" by auto
    with assms(3) have qj: "q \<noteq> j" by auto
    have qn: "q < length (promises s)"
    proof -
      have "q \<in> set (starts (trace s) @ queue s)" using Cons by simp
      then show ?thesis unfolding I(1) by simp
    qed
    have qpend: "promises s ! q = Pending"
    proof -
      from qns I(9) have "q \<notin> set (completed (trace s))" by auto
      with I(13) qn have "promises s ! q \<noteq> Fulfilled" by simp
      moreover have "promises s ! q \<noteq> Rejected" using I(11) qn nth_mem by metis
      ultimately show ?thesis by (cases "promises s ! q") auto
    qed
    show ?thesis
      unfolding on_fulfilled_pop[OF q ip]
      apply (rule invarI)
      subgoal using I(1) Cons by (simp add: settled_def)
      subgoal using I(2) by (simp add: settled_def)
      subgoal using I(3) by (simp add: settled_def)
      subgoal using I(4) by (simp add: settled_def)
      subgoal using ipK by (simp add: settled_def)
      subgoal using ipc lr by (simp add: settled_def)
      subgoal using I(7) qnc sr by (simp add: settled_def)
      subgoal using I(8) sr by (auto simp add: settled_def)
      subgoal using I(8,9) sr assms(3) qns by (auto simp add: settled_def)
      subgoal using I(10) sr jp qpend qj by (auto simp add: settled_def nth_list_update)
      subgoal using rej jp by (simp add: settled_def)
      subgoal using I(12,3,4) ip1 by (auto simp add: settled_def)
      subgoal using ful jp by (simp add: settled_def)
      done
  qed
qed


lemma invar_on_rejected:
  assumes "invar K s"
  shows "invar K (on_rejected msg (settled j s))"
proof -
  note I = invarD[OF assms]
  have sub: "set (remove1 j (compiling s)) \<subseteq> set (compiling s)"
    by (rule set_remove1_subset)
  show ?thesis
    apply (rule invarI)
    subgoal using I(1) by (simp add: on_rejected_def settled_def)
    subgoal using I(2) by (simp add: on_rejected_def settled_def)
    subgoal using I(3) by (simp add: on_rejected_def settled_def)
    subgoal using I(4) by (simp add: on_rejected_def settled_def)
    subgoal using I(5) by (simp add: on_rejected_def settled_def)
    subgoal by (simp add: on_rejected_def settled_def)
    subgoal using I(7) by (simp add: on_rejected_def settled_def)
    subgoal using I(8) sub by (auto simp add: on_rejected_def settled_def)
    subgoal using I(9) sub by (auto simp add: on_rejected_def settled_def)
    subgoal using I(10) sub by (auto simp add: on_rejected_def settled_def)
    subgoal using I(11) by (simp add: on_rejected_def settled_def)
    subgoal using I(12) by (simp add: on_rejected_def settled_def)
    subgoal using I(13) by (simp add: on_rejected_def settled_def)
    done
qed

lemma invar_on_stream_error:
  assumes "invar K s"
  shows "invar K (on_stream_error j msg s)"
proof -
  note I = invarD[OF assms]
  show ?thesis
    apply (rule invarI)
    subgoal using I(1) by (simp add: on_stream_error_def)
    subgoal using I(2) by (simp add: on_stream_error_def)
    subgoal using I(3) by (simp add: on_stream_error_def)
    subgoal using I(4) by (simp add: on_stream_error_def)
    subgoal using I(5) by (simp add: on_stream_error_def)
    subgoal by (simp add: on_stream_error_def)
    subgoal using I(7) by (simp add: on_stream_error_def)
    subgoal using I(8) by (simp add: on_stream_error_def)
    subgoal using I(9) by (simp add: on_stream_error_def)
    subgoal using I(10) by (simp add: on_stream_error_def)
    subgoal using I(11) by (simp add: on_stream_error_def)
    subgoal using I(12) by (simp add: on_stream_error_def)
    subgoal using I(13) by (simp add: on_stream_error_def)
    done
qed

lemma invar_step:
  assumes "invar K s" "0 \<le> K"
  shows "invar K (step K e s)"
proof (cases "exit_code s = None")
  case True
  show ?thesis
  proof (cases e)
    case ClosureCompile
    with True assms show ?thesis by (simp add: step_def invar_closureCompile)
  next
    case (CompileResolved j)
    with True assms show ?thesis by (simp add: step_def invar_on_fulfilled)
  next
    case (CompileRejected j msg)
    with True assms show ?thesis by (simp add: step_def invar_on_rejected)
  next
    case (CompilerStreamError j msg)
    with True assms show ?thesis by (simp add: step_def invar_on_stream_error)
  qed
next
  case False
  with assms show ?thesis by (auto simp add: step_def)
qed

lemma invar_run:
  assumes "invar K s" "0 \<le> K"
  shows "invar K (run K evs s)"
  using assms by (induction evs arbitrary: s) (simp_all add: invar_step)

lemma invar_reachable: "0 \<le> K \<Longrightarrow> invar K (run K evs (init t))"
  by (simp add: invar_run invar_init)

lemma run_append: "run K (xs @ ys) s = run K ys (run K xs s)"
  by (induction xs arbitrary: s) simp_all

lemma step_exited: "exit_code s \<noteq> None \<Longrightarrow> step K e s = s"
  by (auto simp add: step_def)

lemma run_exited: "exit_code s \<noteq> None \<Longrightarrow> run K evs s = s"
  by (induction evs) (simp_all add: step_exited)


lemma MAX_nonneg: "0 \<le> MAX_PARALLEL_CLOSURE_INVOCATIONS"
  by (simp add: MAX_PARALLEL_CLOSURE_INVOCATIONS_def)

lemma next'_changes:
  assumes "queue (next' K s) \<noteq> queue s \<or> starts (trace (next' K s)) \<noteq> starts (trace s)"
  shows "inProgress s < K"
  using assms by (auto simp: next'_def split: list.splits if_splits)

lemma takeWhile_neq_upt:
  assumes "b \<in> set (takeWhile (\<lambda>x. x \<noteq> a) [0..<m])"
  shows "b < a"
  using assms by (induction m) (auto simp: takeWhile_append split: if_splits)

lemma append_upt_split:
  assumes "xs @ ys = [0..<n]"
  shows "xs = [0..<length xs]" and "ys = [length xs..<n]"
proof -
  from assms have "length xs + length ys = n"
    by (metis length_append length_upt diff_zero)
  then have le: "length xs \<le> n" by simp
  from assms have "xs = take (length xs) [0..<n]" "ys = drop (length xs) [0..<n]"
    by (simp_all add: append_eq_conv_conj)
  with le show "xs = [0..<length xs]" "ys = [length xs..<n]"
    by (simp_all add: take_upt)
qed

lemmas eval_defs = MAX_PARALLEL_CLOSURE_INVOCATIONS_def step_def closureCompile_def enqueue_def
      next'_def start_def init_def on_fulfilled_def on_rejected_def on_stream_error_def
      settled_def resolve_def decrement_def write_dot_def dots_def started_before_def

lemma promises_next' [simp]: "promises (next' K s) = promises s"
  by (simp add: next'_def start_def split: list.splits)

lemma promises_on_fulfilled:
  "promises (on_fulfilled K j s) = (promises s)[j := fulfil (promises s ! j)]"
  by (simp add: on_fulfilled_def resolve_def decrement_def write_dot_def)

lemma promises_closureCompile: "promises (closureCompile K s) = promises s @ [Pending]"
  by (simp add: closureCompile_def enqueue_def)

lemma count_list_upt: "count_list [0..<m] j = (if j < m then 1 else 0)"
  by (induction m) auto

lemma next'_advance_spec:
  assumes "length (queue s) \<le> 1 \<or> K - 1 \<le> inProgress s"
  shows "next' K s = advance_spec K s"
proof (cases "queue s")
  case Nil
  then show ?thesis by (subst advance_spec.simps) (simp add: next'_def)
next
  case (Cons f fs)
  show ?thesis
  proof (cases "inProgress s < K")
    case False
    with Cons show ?thesis by (subst advance_spec.simps) (simp add: next'_def)
  next
    case True
    let ?u = "start f (s\<lparr>queue := fs\<rparr>)"
    from assms Cons True have "fs = [] \<or> \<not> inProgress ?u < K"
      by (auto simp: start_def)
    then have "advance_spec K ?u = ?u"
      by (subst advance_spec.simps) (auto simp: start_def split: list.splits)
    with Cons True show ?thesis
      by (subst advance_spec.simps) (simp add: next'_def)
  qed
qed

lemma next'_post:
  assumes "inProgress s \<le> K" and "length (queue s) \<le> 1 \<or> K - 1 \<le> inProgress s"
  shows "queue (next' K s) = [] \<or> inProgress (next' K s) = K"
  using assms by (cases "queue s") (auto simp: next'_def start_def)

subsection \<open>The bound on the jobs in flight\<close>

text \<open>
  C1. After any sequence of calls of \<open>closureCompile\<close>, completions and failures, in any
  order, \<open>inProgress\<close> is at most \<open>MAX_PARALLEL_CLOSURE_INVOCATIONS\<close>, and so is every value
  that was ever written to it inside a turn; and whenever \<open>next\<close> takes a job off the
  queue or starts one, \<open>inProgress\<close> was below \<open>MAX_PARALLEL_CLOSURE_INVOCATIONS\<close> when it
  was called.
\<close>

theorem inProgress_never_exceeds_MAX:
  "inProgress (run MAX_PARALLEL_CLOSURE_INVOCATIONS evs (init t))
     \<le> MAX_PARALLEL_CLOSURE_INVOCATIONS
   \<and> (\<forall>v\<in>set (counter_values (trace (run MAX_PARALLEL_CLOSURE_INVOCATIONS evs (init t)))).
        v \<le> MAX_PARALLEL_CLOSURE_INVOCATIONS)
   \<and> (queue (next' MAX_PARALLEL_CLOSURE_INVOCATIONS s) \<noteq> queue s
        \<or> starts (trace (next' MAX_PARALLEL_CLOSURE_INVOCATIONS s)) \<noteq> starts (trace s)
      \<longrightarrow> inProgress s < MAX_PARALLEL_CLOSURE_INVOCATIONS)"
proof -
  note I = invarD[OF invar_reachable[OF MAX_nonneg, of evs t]]
  from I(4) I(12) next'_changes[of MAX_PARALLEL_CLOSURE_INVOCATIONS s]
  show ?thesis by blast
qed

theorem inProgress_never_exceeds_MAX_witness:
  "inProgress (run MAX_PARALLEL_CLOSURE_INVOCATIONS
       [ClosureCompile, ClosureCompile, ClosureCompile, ClosureCompile, ClosureCompile,
        CompileResolved 2, ClosureCompile] (init False)) = 4
   \<and> counter_values (trace (run MAX_PARALLEL_CLOSURE_INVOCATIONS
       [ClosureCompile, ClosureCompile, ClosureCompile, ClosureCompile, ClosureCompile,
        CompileResolved 2, ClosureCompile] (init False))) = [1, 2, 3, 4, 3, 4]
   \<and> queue (next' MAX_PARALLEL_CLOSURE_INVOCATIONS (enqueue (init False)))
        \<noteq> queue (enqueue (init False))
   \<and> inProgress (enqueue (init False)) < MAX_PARALLEL_CLOSURE_INVOCATIONS"
  using inProgress_never_exceeds_MAX [of
      "[ClosureCompile, ClosureCompile, ClosureCompile, ClosureCompile, ClosureCompile,
        CompileResolved 2, ClosureCompile]" False "enqueue (init False)"]
  by (simp add: MAX_PARALLEL_CLOSURE_INVOCATIONS_def step_def closureCompile_def enqueue_def
      next'_def start_def init_def on_fulfilled_def settled_def resolve_def decrement_def
      write_dot_def)

subsection \<open>Start order\<close>

text \<open>
  C2. In every state \<open>s\<close> the module can reach, the jobs started so far are the first
  calls of \<open>closureCompile\<close> in the order of the calls, and the queue holds the others in
  that order; so, for a job \<open>a\<close> submitted before a job \<open>b\<close>, \<open>b\<close> is never started while
  \<open>a\<close> has not been. In any state \<open>s'\<close>, \<open>queue.push\<close> appends at the end, and when
  \<open>next\<close> changes the queue it removes the front element and starts that job.
\<close>

theorem starts_follow_submission_order:
  assumes "s = run MAX_PARALLEL_CLOSURE_INVOCATIONS evs (init t)"
  shows "starts (trace s) = [0..<length (starts (trace s))]
    \<and> queue s = [length (starts (trace s))..<length (promises s)]
    \<and> (a < b \<longrightarrow> \<not> started_before (starts (trace s)) b a)
    \<and> queue (enqueue s') = queue s' @ [length (promises s')]
    \<and> (queue (next' K s') \<noteq> queue s' \<longrightarrow>
          queue s' = hd (queue s') # queue (next' K s')
          \<and> starts (trace (next' K s')) = starts (trace s') @ [hd (queue s')])"
proof -
  have I: "starts (trace s) @ queue s = [0..<length (promises s)]"
    unfolding assms by (rule invarD(1)[OF invar_reachable[OF MAX_nonneg]])
  note S = append_upt_split[OF I]
  have "\<not> started_before (starts (trace s)) b a" if "a < b"
  proof
    assume "started_before (starts (trace s)) b a"
    then have "b \<in> set (takeWhile (\<lambda>x. x \<noteq> a) [0..<length (starts (trace s))])"
      using S(1) by (simp add: started_before_def)
    then have "b < a" by (rule takeWhile_neq_upt)
    with that show False by simp
  qed
  moreover have "queue (enqueue s') = queue s' @ [length (promises s')]"
    by (simp add: enqueue_def)
  moreover have "queue (next' K s') \<noteq> queue s' \<longrightarrow>
          queue s' = hd (queue s') # queue (next' K s')
          \<and> starts (trace (next' K s')) = starts (trace s') @ [hd (queue s')]"
    by (auto simp: next'_def start_def split: list.splits)
  ultimately show ?thesis using S by blast
qed

theorem starts_follow_submission_order_witness:
  "starts (trace (run MAX_PARALLEL_CLOSURE_INVOCATIONS
      [ClosureCompile, ClosureCompile, ClosureCompile, ClosureCompile, ClosureCompile,
       ClosureCompile, CompileResolved 1] (init False))) = [0, 1, 2, 3, 4]
   \<and> queue (run MAX_PARALLEL_CLOSURE_INVOCATIONS
      [ClosureCompile, ClosureCompile, ClosureCompile, ClosureCompile, ClosureCompile,
       ClosureCompile, CompileResolved 1] (init False)) = [5]
   \<and> (3::nat) < 4
   \<and> \<not> started_before [0, 1, 2, 3, 4] 4 3
   \<and> queue (next' 4 (enqueue (init False))) \<noteq> queue (enqueue (init False))
   \<and> starts (trace (next' 4 (enqueue (init False)))) = [0]"
  using starts_follow_submission_order [OF refl, where evs =
      "[ClosureCompile, ClosureCompile, ClosureCompile, ClosureCompile, ClosureCompile,
       ClosureCompile, CompileResolved 1]" and t = False and a = 3 and b = 4
      and K = 4 and s' = "enqueue (init False)"]
  by (simp add: eval_defs)

subsection \<open>Failure of a job\<close>

text \<open>
  C3. Let the process be alive in state \<open>s\<close>. When the promise of \<open>compile\<close> of a
  compiling job \<open>j\<close> rejects, the turn hands the error to \<open>console.error\<close> and then calls
  \<open>process.exit(1)\<close>, and does nothing else. When the compiler stream of a job \<open>i\<close> that
  has one emits \<open>'error'\<close>, the turn hands the report for \<open>i\<close> to \<open>console.error\<close> and
  then calls \<open>process.exit(1)\<close>, and does nothing else. After either turn, whatever
  events follow, the state stays as it is: nothing more is logged, so no job is started
  and no completion of a job in flight is handled; no promise changes; the queue keeps
  its jobs. With a bound of 1, after two submissions and the failure of the first job in
  either way, the first job is the only one started and the second is in the queue for
  ever.
\<close>

theorem failure_exits:
  assumes "exit_code s = None"
    and "s1 = step K (CompileRejected j msg) s"
    and "s2 = step K (CompilerStreamError i msg) s"
  shows "(j \<in> set (compiling s) \<longrightarrow>
        trace s1 = trace s @ [ConsoleError (CompilationError msg), Exit 1]
        \<and> exit_code s1 = Some 1
        \<and> run K evs s1 = s1
        \<and> trace (run K evs s1) = trace s1
        \<and> starts (trace (run K evs s1)) = starts (trace s)
        \<and> completed (trace (run K evs s1)) = completed (trace s)
        \<and> promises (run K evs s1) = promises s
        \<and> queue (run K evs s1) = queue s)
    \<and> (i \<in> set (streams s) \<longrightarrow>
        trace s2 = trace s @ [ConsoleError (CompilerErrorFor i msg), Exit 1]
        \<and> exit_code s2 = Some 1
        \<and> run K evs s2 = s2
        \<and> trace (run K evs s2) = trace s2
        \<and> starts (trace (run K evs s2)) = starts (trace s)
        \<and> completed (trace (run K evs s2)) = completed (trace s)
        \<and> promises (run K evs s2) = promises s
        \<and> queue (run K evs s2) = queue s)
    \<and> starts (trace (run 1 ([ClosureCompile, ClosureCompile, CompileRejected 0 msg] @ evs)
          (init t))) = [0]
    \<and> queue (run 1 ([ClosureCompile, ClosureCompile, CompileRejected 0 msg] @ evs)
          (init t)) = [1]
    \<and> starts (trace (run 1 ([ClosureCompile, ClosureCompile, CompilerStreamError 0 msg] @ evs)
          (init t))) = [0]
    \<and> queue (run 1 ([ClosureCompile, ClosureCompile, CompilerStreamError 0 msg] @ evs)
          (init t)) = [1]"
proof -
  have a: "trace s1 = trace s @ [ConsoleError (CompilationError msg), Exit 1]
        \<and> exit_code s1 = Some 1
        \<and> run K evs s1 = s1
        \<and> trace (run K evs s1) = trace s1
        \<and> starts (trace (run K evs s1)) = starts (trace s)
        \<and> completed (trace (run K evs s1)) = completed (trace s)
        \<and> promises (run K evs s1) = promises s
        \<and> queue (run K evs s1) = queue s"
    if "j \<in> set (compiling s)"
  proof -
    from assms(1,2) that have s1: "s1 = on_rejected msg (settled j s)"
      by (simp add: step_def)
    then have "exit_code s1 \<noteq> None" by (simp add: on_rejected_def)
    then have "run K evs s1 = s1" by (rule run_exited)
    with s1 show ?thesis by (simp add: on_rejected_def settled_def)
  qed
  have b: "trace s2 = trace s @ [ConsoleError (CompilerErrorFor i msg), Exit 1]
        \<and> exit_code s2 = Some 1
        \<and> run K evs s2 = s2
        \<and> trace (run K evs s2) = trace s2
        \<and> starts (trace (run K evs s2)) = starts (trace s)
        \<and> completed (trace (run K evs s2)) = completed (trace s)
        \<and> promises (run K evs s2) = promises s
        \<and> queue (run K evs s2) = queue s"
    if "i \<in> set (streams s)"
  proof -
    from assms(1,3) that have s2: "s2 = on_stream_error i msg s"
      by (simp add: step_def)
    then have "exit_code s2 \<noteq> None" by (simp add: on_stream_error_def)
    then have "run K evs s2 = s2" by (rule run_exited)
    with s2 show ?thesis by (simp add: on_stream_error_def)
  qed
  have sc1: "run 1 [ClosureCompile, ClosureCompile, CompileRejected 0 msg] (init t) =
      \<lparr>queue = [1], inProgress = 1, compiling = [], streams = [0],
       promises = [Pending, Pending],
       trace = [Push 0, Start 0, Incr 1, Push 1, ConsoleError (CompilationError msg), Exit 1],
       exit_code = Some 1, env_TRAVIS = t\<rparr>"
    by (simp add: step_def closureCompile_def enqueue_def next'_def start_def init_def
        on_rejected_def settled_def)
  have "exit_code (run 1 [ClosureCompile, ClosureCompile, CompileRejected 0 msg] (init t))
      \<noteq> None"
    unfolding sc1 by simp
  then have r1: "run 1 ([ClosureCompile, ClosureCompile, CompileRejected 0 msg] @ evs) (init t) =
      run 1 [ClosureCompile, ClosureCompile, CompileRejected 0 msg] (init t)"
    unfolding run_append by (rule run_exited)
  have sc2: "run 1 [ClosureCompile, ClosureCompile, CompilerStreamError 0 msg] (init t) =
      \<lparr>queue = [1], inProgress = 1, compiling = [0], streams = [0],
       promises = [Pending, Pending],
       trace = [Push 0, Start 0, Incr 1, Push 1, ConsoleError (CompilerErrorFor 0 msg), Exit 1],
       exit_code = Some 1, env_TRAVIS = t\<rparr>"
    by (simp add: step_def closureCompile_def enqueue_def next'_def start_def init_def
        on_stream_error_def)
  have "exit_code (run 1 [ClosureCompile, ClosureCompile, CompilerStreamError 0 msg] (init t))
      \<noteq> None"
    unfolding sc2 by simp
  then have r2:
    "run 1 ([ClosureCompile, ClosureCompile, CompilerStreamError 0 msg] @ evs) (init t) =
      run 1 [ClosureCompile, ClosureCompile, CompilerStreamError 0 msg] (init t)"
    unfolding run_append by (rule run_exited)
  have c: "starts (trace (run 1 ([ClosureCompile, ClosureCompile, CompileRejected 0 msg] @ evs)
          (init t))) = [0]
    \<and> queue (run 1 ([ClosureCompile, ClosureCompile, CompileRejected 0 msg] @ evs)
          (init t)) = [1]
    \<and> starts (trace (run 1 ([ClosureCompile, ClosureCompile, CompilerStreamError 0 msg] @ evs)
          (init t))) = [0]
    \<and> queue (run 1 ([ClosureCompile, ClosureCompile, CompilerStreamError 0 msg] @ evs)
          (init t)) = [1]"
    unfolding r1 r2 sc1 sc2 by simp
  from a b c show ?thesis by blast
qed

theorem failure_exits_witness:
  "exit_code (run 4 [ClosureCompile, ClosureCompile, CompileResolved 0] (init False)) = None
   \<and> compiling (run 4 [ClosureCompile, ClosureCompile, CompileResolved 0] (init False)) = [1]
   \<and> streams (run 4 [ClosureCompile, ClosureCompile, CompileResolved 0] (init False)) = [0, 1]
   \<and> trace (run 4 [ClosureCompile, ClosureCompile, CompileResolved 0,
        CompileRejected 1 ''boom''] (init False)) =
       [Push 0, Start 0, Incr 1, Push 1, Start 1, Incr 2, Decr 1, Resolve 0,
        ConsoleError (CompilationError ''boom''), Exit 1]
   \<and> exit_code (run 4 [ClosureCompile, ClosureCompile, CompileResolved 0,
        CompileRejected 1 ''boom''] (init False)) = Some 1
   \<and> trace (run 4 [ClosureCompile, ClosureCompile, CompileResolved 0,
        CompileRejected 1 ''boom'', ClosureCompile, CompileResolved 1] (init False)) =
       [Push 0, Start 0, Incr 1, Push 1, Start 1, Incr 2, Decr 1, Resolve 0,
        ConsoleError (CompilationError ''boom''), Exit 1]
   \<and> trace (run 4 [ClosureCompile, ClosureCompile, CompileResolved 0,
        CompilerStreamError 0 ''boom''] (init False)) =
       [Push 0, Start 0, Incr 1, Push 1, Start 1, Incr 2, Decr 1, Resolve 0,
        ConsoleError (CompilerErrorFor 0 ''boom''), Exit 1]
   \<and> exit_code (run 4 [ClosureCompile, ClosureCompile, CompileResolved 0,
        CompilerStreamError 0 ''boom''] (init False)) = Some 1
   \<and> promises (run 4 [ClosureCompile, ClosureCompile, CompileResolved 0,
        CompilerStreamError 0 ''boom'', ClosureCompile, CompileResolved 1] (init False)) =
       [Fulfilled, Pending]"
  using failure_exits [where s = "run 4 [ClosureCompile, ClosureCompile, CompileResolved 0]
        (init False)"
      and j = 1 and i = 0 and K = 4 and msg = "''boom''"
      and evs = "[ClosureCompile, CompileResolved 1]", OF _ refl refl]
  by (simp add: eval_defs)

subsection \<open>\<open>next\<close> with nothing to do\<close>

text \<open>
  C6. In a state whose queue is empty or whose \<open>inProgress\<close> equals the bound, \<open>next\<close>
  returns the state it was given: queue, counter and started jobs are unchanged.
\<close>

theorem next_noop:
  assumes "queue s = [] \<or> inProgress s = K"
  shows "next' K s = s
    \<and> queue (next' K s) = queue s
    \<and> inProgress (next' K s) = inProgress s
    \<and> starts (trace (next' K s)) = starts (trace s)"
  using assms by (auto simp: next'_def split: list.splits)

theorem next_noop_witness:
  "inProgress (run 4 [ClosureCompile, ClosureCompile, ClosureCompile, ClosureCompile,
       ClosureCompile] (init False)) = 4
   \<and> queue (run 4 [ClosureCompile, ClosureCompile, ClosureCompile, ClosureCompile,
       ClosureCompile] (init False)) = [4]
   \<and> next' 4 (run 4 [ClosureCompile, ClosureCompile, ClosureCompile, ClosureCompile,
       ClosureCompile] (init False)) =
      run 4 [ClosureCompile, ClosureCompile, ClosureCompile, ClosureCompile,
       ClosureCompile] (init False)
   \<and> queue (init False) = [] \<and> next' 4 (init False) = init False"
  using next_noop [of "run 4 [ClosureCompile, ClosureCompile, ClosureCompile, ClosureCompile,
       ClosureCompile] (init False)" 4] next_noop [of "init False" 4]
  by (simp add: eval_defs)

subsection \<open>No rejection of the returned promise\<close>

text \<open>
  C10. No promise returned by \<open>closureCompile\<close> is ever rejected, whatever the events;
  the turn of a rejection of \<open>compile\<close> and the turn of an error of the compiler stream
  leave all promises as they were, and the first one ends the process with exit code 1.
\<close>

theorem promise_never_rejects:
  "Rejected \<notin> set (promises (run MAX_PARALLEL_CLOSURE_INVOCATIONS evs (init t)))
   \<and> promises (step K (CompileRejected j msg) s) = promises s
   \<and> promises (step K (CompilerStreamError j msg) s) = promises s
   \<and> (exit_code s = None \<and> j \<in> set (compiling s) \<longrightarrow>
        exit_code (step K (CompileRejected j msg) s) = Some 1)"
proof -
  have "Rejected \<notin> set (promises (run MAX_PARALLEL_CLOSURE_INVOCATIONS evs (init t)))"
    by (rule invarD(11)[OF invar_reachable[OF MAX_nonneg]])
  then show ?thesis
    by (simp add: step_def on_rejected_def on_stream_error_def settled_def)
qed

theorem promise_never_rejects_witness:
  "promises (run MAX_PARALLEL_CLOSURE_INVOCATIONS
      [ClosureCompile, ClosureCompile, CompileResolved 0, CompileRejected 1 ''boom'']
      (init False)) = [Fulfilled, Pending]
   \<and> exit_code (run 4 [ClosureCompile] (init False)) = None
   \<and> 0 \<in> set (compiling (run 4 [ClosureCompile] (init False)))
   \<and> exit_code (step 4 (CompileRejected 0 ''boom'') (run 4 [ClosureCompile] (init False)))
       = Some 1
   \<and> promises (step 4 (CompileRejected 0 ''boom'') (run 4 [ClosureCompile] (init False)))
       = [Pending]"
  using promise_never_rejects [of
      "[ClosureCompile, ClosureCompile, CompileResolved 0, CompileRejected 1 ''boom'']" False
      4 0 "''boom''" "run 4 [ClosureCompile] (init False)"]
  by (simp add: eval_defs)

subsection \<open>The turn of a successful completion\<close>

text \<open>
  C4. Let \<open>s\<close> be a state the module can reach, with the process alive and job \<open>j\<close>
  compiling. When the promise of \<open>compile\<close> of \<open>j\<close> fulfils, the turn performs, in this
  order: the progress dot if \<open>TRAVIS\<close> is set, \<open>inProgress--\<close> writing the old value minus
  1, then, if the queue is not empty, the start of its front job with \<open>inProgress++\<close>, and
  last \<open>resolve()\<close> of the promise of \<open>j\<close>. Exactly one job is started if the queue is not
  empty, and none otherwise; the promise of \<open>j\<close>, pending before, is fulfilled after.
\<close>

theorem completion_turn:
  assumes "s = run MAX_PARALLEL_CLOSURE_INVOCATIONS evs (init t)"
    and "exit_code s = None" and "j \<in> set (compiling s)"
    and "s' = step MAX_PARALLEL_CLOSURE_INVOCATIONS (CompileResolved j) s"
  shows "trace s' = trace s @ dots s @ [Decr (inProgress s - 1)]
            @ (case queue s of [] \<Rightarrow> [] | q # qs \<Rightarrow> [Start q, Incr (inProgress s)])
            @ [Resolve j]
    \<and> starts (trace s') = starts (trace s) @ (case queue s of [] \<Rightarrow> [] | q # qs \<Rightarrow> [q])
    \<and> queue s' = (case queue s of [] \<Rightarrow> [] | q # qs \<Rightarrow> qs)
    \<and> inProgress s' = (if queue s = [] then inProgress s - 1 else inProgress s)
    \<and> promises s ! j = Pending
    \<and> promises s' = (promises s)[j := Fulfilled]"
proof -
  have inv: "invar MAX_PARALLEL_CLOSURE_INVOCATIONS s"
    unfolding assms(1) by (rule invar_reachable[OF MAX_nonneg])
  note I = invarD[OF inv]
  from assms(3) I(10) have jp: "promises s ! j = Pending" by simp
  from assms(2,3,4) have s': "s' = on_fulfilled MAX_PARALLEL_CLOSURE_INVOCATIONS j (settled j s)"
    by (simp add: step_def)
  show ?thesis
  proof (cases "queue s")
    case Nil
    then have q: "queue (settled j s) = []" by (simp add: settled_def)
    show ?thesis
      unfolding s' on_fulfilled_empty[OF q]
      using Nil jp by (simp add: settled_def dots_def)
  next
    case (Cons q qs)
    then have q: "queue (settled j s) = q # qs" by (simp add: settled_def)
    from I(4) have ip: "inProgress (settled j s) - 1 < MAX_PARALLEL_CLOSURE_INVOCATIONS"
      by (simp add: settled_def)
    show ?thesis
      unfolding s' on_fulfilled_pop[OF q ip]
      using Cons jp by (simp add: settled_def dots_def)
  qed
qed

theorem completion_turn_witness:
  "exit_code (run MAX_PARALLEL_CLOSURE_INVOCATIONS
      [ClosureCompile, ClosureCompile, ClosureCompile, ClosureCompile, ClosureCompile,
       ClosureCompile] (init True)) = None
   \<and> 2 \<in> set (compiling (run MAX_PARALLEL_CLOSURE_INVOCATIONS
      [ClosureCompile, ClosureCompile, ClosureCompile, ClosureCompile, ClosureCompile,
       ClosureCompile] (init True)))
   \<and> queue (run MAX_PARALLEL_CLOSURE_INVOCATIONS
      [ClosureCompile, ClosureCompile, ClosureCompile, ClosureCompile, ClosureCompile,
       ClosureCompile] (init True)) = [4, 5]
   \<and> trace (step MAX_PARALLEL_CLOSURE_INVOCATIONS (CompileResolved 2)
       (run MAX_PARALLEL_CLOSURE_INVOCATIONS
      [ClosureCompile, ClosureCompile, ClosureCompile, ClosureCompile, ClosureCompile,
       ClosureCompile] (init True))) =
      [Push 0, Start 0, Incr 1, Push 1, Start 1, Incr 2, Push 2, Start 2, Incr 3,
       Push 3, Start 3, Incr 4, Push 4, Push 5,
       Dot, Decr 3, Start 4, Incr 4, Resolve 2]
   \<and> queue (step MAX_PARALLEL_CLOSURE_INVOCATIONS (CompileResolved 2)
       (run MAX_PARALLEL_CLOSURE_INVOCATIONS
      [ClosureCompile, ClosureCompile, ClosureCompile, ClosureCompile, ClosureCompile,
       ClosureCompile] (init True))) = [5]
   \<and> promises (step MAX_PARALLEL_CLOSURE_INVOCATIONS (CompileResolved 2)
       (run MAX_PARALLEL_CLOSURE_INVOCATIONS
      [ClosureCompile, ClosureCompile, ClosureCompile, ClosureCompile, ClosureCompile,
       ClosureCompile] (init True))) =
      [Pending, Pending, Fulfilled, Pending, Pending, Pending]"
  using completion_turn [OF refl _ _ refl, where evs =
      "[ClosureCompile, ClosureCompile, ClosureCompile, ClosureCompile, ClosureCompile,
       ClosureCompile]" and t = True and j = 2]
  by (simp add: eval_defs)

subsection \<open>One call of \<open>next\<close>\<close>

text \<open>
  C5. \<open>next\<close> is called in two places: by \<open>closureCompile\<close> after \<open>queue.push(start)\<close>,
  and by the fulfilment callback after \<open>inProgress--\<close>. Let \<open>r\<close> be a state the module
  can reach. At both calls made from \<open>r\<close>, what \<open>next\<close> does is what the loop of the
  specification does: it pops and starts queued jobs while the queue is not empty and
  \<open>inProgress\<close> is below \<open>MAX_PARALLEL_CLOSURE_INVOCATIONS\<close>; and when the call returns,
  the increment of the job it started counted, the queue is empty or \<open>inProgress\<close> equals
  \<open>MAX_PARALLEL_CLOSURE_INVOCATIONS\<close>. The two turns are these calls followed by nothing
  that touches the queue or the counter.
\<close>

theorem next_advances_like_the_loop:
  assumes "r = run MAX_PARALLEL_CLOSURE_INVOCATIONS evs (init t)"
  shows "closureCompile MAX_PARALLEL_CLOSURE_INVOCATIONS r
        = next' MAX_PARALLEL_CLOSURE_INVOCATIONS (enqueue r)
    \<and> next' MAX_PARALLEL_CLOSURE_INVOCATIONS (enqueue r)
        = advance_spec MAX_PARALLEL_CLOSURE_INVOCATIONS (enqueue r)
    \<and> (queue (next' MAX_PARALLEL_CLOSURE_INVOCATIONS (enqueue r)) = []
        \<or> inProgress (next' MAX_PARALLEL_CLOSURE_INVOCATIONS (enqueue r))
            = MAX_PARALLEL_CLOSURE_INVOCATIONS)
    \<and> on_fulfilled MAX_PARALLEL_CLOSURE_INVOCATIONS j (settled j r)
        = resolve j (next' MAX_PARALLEL_CLOSURE_INVOCATIONS
            (decrement (write_dot (settled j r))))
    \<and> next' MAX_PARALLEL_CLOSURE_INVOCATIONS (decrement (write_dot (settled j r)))
        = advance_spec MAX_PARALLEL_CLOSURE_INVOCATIONS (decrement (write_dot (settled j r)))
    \<and> (queue (next' MAX_PARALLEL_CLOSURE_INVOCATIONS
            (decrement (write_dot (settled j r)))) = []
        \<or> inProgress (next' MAX_PARALLEL_CLOSURE_INVOCATIONS
            (decrement (write_dot (settled j r))))
            = MAX_PARALLEL_CLOSURE_INVOCATIONS)"
proof -
  have inv: "invar MAX_PARALLEL_CLOSURE_INVOCATIONS r"
    unfolding assms by (rule invar_reachable[OF MAX_nonneg])
  note I = invarD[OF inv]
  have e1: "inProgress (enqueue r) \<le> MAX_PARALLEL_CLOSURE_INVOCATIONS"
    using I(4) by (simp add: enqueue_def)
  have e2: "length (queue (enqueue r)) \<le> 1
      \<or> MAX_PARALLEL_CLOSURE_INVOCATIONS - 1 \<le> inProgress (enqueue r)"
    using I(5) by (cases "queue r = []") (simp_all add: enqueue_def)
  have d1: "inProgress (decrement (write_dot (settled j r)))
      \<le> MAX_PARALLEL_CLOSURE_INVOCATIONS"
    using I(4) by (simp add: decrement_def write_dot_def settled_def)
  have d2: "length (queue (decrement (write_dot (settled j r)))) \<le> 1
      \<or> MAX_PARALLEL_CLOSURE_INVOCATIONS - 1 \<le> inProgress (decrement (write_dot (settled j r)))"
    using I(5) by (cases "queue r = []") (simp_all add: decrement_def write_dot_def settled_def)
  show ?thesis
    using next'_advance_spec[OF e2] next'_post[OF e1 e2]
      next'_advance_spec[OF d2] next'_post[OF d1 d2]
    by (simp add: closureCompile_def on_fulfilled_def)
qed

theorem next_advances_like_the_loop_witness:
  "queue (enqueue (run MAX_PARALLEL_CLOSURE_INVOCATIONS
        [ClosureCompile, ClosureCompile, ClosureCompile] (init False))) = [3]
   \<and> advance_spec MAX_PARALLEL_CLOSURE_INVOCATIONS (enqueue
        (run MAX_PARALLEL_CLOSURE_INVOCATIONS
          [ClosureCompile, ClosureCompile, ClosureCompile] (init False)))
      = run MAX_PARALLEL_CLOSURE_INVOCATIONS
          [ClosureCompile, ClosureCompile, ClosureCompile, ClosureCompile] (init False)
   \<and> queue (next' MAX_PARALLEL_CLOSURE_INVOCATIONS (enqueue
        (run MAX_PARALLEL_CLOSURE_INVOCATIONS
          [ClosureCompile, ClosureCompile, ClosureCompile] (init False)))) = []
   \<and> inProgress (next' MAX_PARALLEL_CLOSURE_INVOCATIONS (enqueue
        (run MAX_PARALLEL_CLOSURE_INVOCATIONS
          [ClosureCompile, ClosureCompile, ClosureCompile] (init False)))) = 4
   \<and> queue (decrement (write_dot (settled 0 (run MAX_PARALLEL_CLOSURE_INVOCATIONS
        [ClosureCompile, ClosureCompile, ClosureCompile, ClosureCompile, ClosureCompile,
         ClosureCompile] (init False))))) = [4, 5]
   \<and> inProgress (decrement (write_dot (settled 0 (run MAX_PARALLEL_CLOSURE_INVOCATIONS
        [ClosureCompile, ClosureCompile, ClosureCompile, ClosureCompile, ClosureCompile,
         ClosureCompile] (init False))))) = 3
   \<and> queue (advance_spec MAX_PARALLEL_CLOSURE_INVOCATIONS
        (decrement (write_dot (settled 0 (run MAX_PARALLEL_CLOSURE_INVOCATIONS
        [ClosureCompile, ClosureCompile, ClosureCompile, ClosureCompile, ClosureCompile,
         ClosureCompile] (init False)))))) = [5]
   \<and> inProgress (next' MAX_PARALLEL_CLOSURE_INVOCATIONS
        (decrement (write_dot (settled 0 (run MAX_PARALLEL_CLOSURE_INVOCATIONS
        [ClosureCompile, ClosureCompile, ClosureCompile, ClosureCompile, ClosureCompile,
         ClosureCompile] (init False)))))) = 4"
  using next_advances_like_the_loop [OF refl, where evs =
        "[ClosureCompile, ClosureCompile, ClosureCompile]" and t = False and j = 0]
    next_advances_like_the_loop [OF refl, where evs =
        "[ClosureCompile, ClosureCompile, ClosureCompile, ClosureCompile, ClosureCompile,
         ClosureCompile]" and t = False and j = 0]
  by (simp add: eval_defs advance_spec.simps)

subsection \<open>The promise of a submission\<close>

text \<open>
  C7. Let \<open>s\<close> be a state the module can reach and \<open>i\<close> one of its submissions. After a
  turn, the promise of \<open>i\<close> is fulfilled exactly if it was fulfilled before or the turn is
  the fulfilment of the promise of \<open>compile\<close> of job \<open>i\<close> itself, in a live process with
  \<open>i\<close> compiling. A call of \<open>closureCompile\<close> adds a pending promise and changes no other.
  The promise of \<open>i\<close> is fulfilled exactly if job \<open>i\<close> has completed; then \<open>i\<close> has been
  started and is neither compiling nor queued; otherwise the promise is pending.
\<close>

theorem promise_resolves_with_its_job:
  assumes "s = run MAX_PARALLEL_CLOSURE_INVOCATIONS evs (init t)"
    and "i < length (promises s)"
  shows "(promises (step MAX_PARALLEL_CLOSURE_INVOCATIONS e s) ! i = Fulfilled \<longleftrightarrow>
            promises s ! i = Fulfilled
            \<or> exit_code s = None \<and> e = CompileResolved i \<and> i \<in> set (compiling s))
    \<and> (exit_code s = None \<longrightarrow>
          promises (step MAX_PARALLEL_CLOSURE_INVOCATIONS ClosureCompile s)
            = promises s @ [Pending])
    \<and> (promises s ! i = Fulfilled \<longleftrightarrow> i \<in> set (completed (trace s)))
    \<and> (promises s ! i = Fulfilled \<longrightarrow>
          i \<in> set (starts (trace s)) \<and> i \<notin> set (compiling s) \<and> i \<notin> set (queue s))
    \<and> (promises s ! i \<noteq> Fulfilled \<longrightarrow> promises s ! i = Pending)"
proof -
  have inv: "invar MAX_PARALLEL_CLOSURE_INVOCATIONS s"
    unfolding assms(1) by (rule invar_reachable[OF MAX_nonneg])
  note I = invarD[OF inv]
  have dist: "distinct (starts (trace s) @ queue s)" unfolding I(1) by simp
  have c: "promises s ! i = Fulfilled \<longleftrightarrow> i \<in> set (completed (trace s))"
    using I(13) assms(2) by simp
  have d: "i \<in> set (starts (trace s)) \<and> i \<notin> set (compiling s) \<and> i \<notin> set (queue s)"
    if "promises s ! i = Fulfilled"
  proof -
    from that c I(9) have "i \<in> set (starts (trace s))" "i \<notin> set (compiling s)" by auto
    with dist show ?thesis by auto
  qed
  have p: "promises s ! i = Pending" if "promises s ! i \<noteq> Fulfilled"
  proof -
    have "promises s ! i \<noteq> Rejected" using I(11) assms(2) nth_mem by metis
    with that show ?thesis by (cases "promises s ! i") auto
  qed
  have b: "promises (step MAX_PARALLEL_CLOSURE_INVOCATIONS ClosureCompile s)
      = promises s @ [Pending]" if "exit_code s = None"
    using that by (simp add: step_def promises_closureCompile)
  have a: "promises (step MAX_PARALLEL_CLOSURE_INVOCATIONS e s) ! i = Fulfilled \<longleftrightarrow>
            promises s ! i = Fulfilled
            \<or> exit_code s = None \<and> e = CompileResolved i \<and> i \<in> set (compiling s)"
  proof (cases "exit_code s = None")
    case False
    then show ?thesis by (auto simp: step_def)
  next
    case True
    show ?thesis
    proof (cases e)
      case ClosureCompile
      with True assms(2) show ?thesis
        by (simp add: step_def promises_closureCompile nth_append)
    next
      case (CompileResolved j)
      show ?thesis
      proof (cases "j \<in> set (compiling s)")
        case False
        with True CompileResolved show ?thesis by (auto simp: step_def)
      next
        case jc: True
        with I(10) have "promises s ! j = Pending" by simp
        with True CompileResolved jc assms(2) show ?thesis
          by (cases "i = j") (simp_all add: step_def promises_on_fulfilled settled_def)
      qed
    next
      case (CompileRejected j msg)
      with True show ?thesis
        by (simp add: step_def on_rejected_def settled_def)
    next
      case (CompilerStreamError j msg)
      with True show ?thesis
        by (simp add: step_def on_stream_error_def)
    qed
  qed
  from a b c d p show ?thesis by blast
qed


theorem promise_resolves_with_its_job_witness:
  "(1::nat) < length (promises (run MAX_PARALLEL_CLOSURE_INVOCATIONS
      [ClosureCompile, ClosureCompile, ClosureCompile] (init False)))
   \<and> promises (run MAX_PARALLEL_CLOSURE_INVOCATIONS
      [ClosureCompile, ClosureCompile, ClosureCompile] (init False)) ! 1 = Pending
   \<and> 1 \<in> set (compiling (run MAX_PARALLEL_CLOSURE_INVOCATIONS
      [ClosureCompile, ClosureCompile, ClosureCompile] (init False)))
   \<and> promises (step MAX_PARALLEL_CLOSURE_INVOCATIONS (CompileResolved 1)
       (run MAX_PARALLEL_CLOSURE_INVOCATIONS
         [ClosureCompile, ClosureCompile, ClosureCompile] (init False))) ! 1 = Fulfilled
   \<and> promises (step MAX_PARALLEL_CLOSURE_INVOCATIONS (CompileResolved 0)
       (run MAX_PARALLEL_CLOSURE_INVOCATIONS
         [ClosureCompile, ClosureCompile, ClosureCompile] (init False))) ! 1 = Pending
   \<and> promises (step MAX_PARALLEL_CLOSURE_INVOCATIONS ClosureCompile
       (run MAX_PARALLEL_CLOSURE_INVOCATIONS
         [ClosureCompile, ClosureCompile, ClosureCompile] (init False)))
       = [Pending, Pending, Pending, Pending]"
  using promise_resolves_with_its_job [OF refl, where evs =
      "[ClosureCompile, ClosureCompile, ClosureCompile]" and t = False and i = 1
      and e = "CompileResolved 1"]
    promise_resolves_with_its_job [OF refl, where evs =
      "[ClosureCompile, ClosureCompile, ClosureCompile]" and t = False and i = 1
      and e = "CompileResolved 0"]
  by (simp add: eval_defs)

subsection \<open>Every job is started, once\<close>

text \<open>
  C8. Let \<open>s\<close> be a state the module can reach and \<open>j\<close> one of its submissions. Job \<open>j\<close>
  has been started at most once, and if it has not been started it is in the queue. As
  soon as the number of completed jobs exceeds \<open>j - MAX_PARALLEL_CLOSURE_INVOCATIONS\<close>, job
  \<open>j\<close> has been started exactly once. While the process lives and a job waits,
  \<open>MAX_PARALLEL_CLOSURE_INVOCATIONS\<close> jobs are compiling, and the completion of any
  compiling job \<open>c\<close> leaves the process alive and adds \<open>c\<close> to the completed jobs.
\<close>

theorem every_job_starts_once:
  assumes "s = run MAX_PARALLEL_CLOSURE_INVOCATIONS evs (init t)"
    and "j < length (promises s)"
  shows "count_list (starts (trace s)) j \<le> 1
    \<and> (count_list (starts (trace s)) j = 0 \<longrightarrow> j \<in> set (queue s))
    \<and> (int j < MAX_PARALLEL_CLOSURE_INVOCATIONS + int (length (completed (trace s))) \<longrightarrow>
          count_list (starts (trace s)) j = 1)
    \<and> (exit_code s = None \<and> queue s \<noteq> [] \<longrightarrow>
          int (length (compiling s)) = MAX_PARALLEL_CLOSURE_INVOCATIONS)
    \<and> (exit_code s = None \<and> c \<in> set (compiling s) \<longrightarrow>
          exit_code (step MAX_PARALLEL_CLOSURE_INVOCATIONS (CompileResolved c) s) = None
          \<and> completed (trace (step MAX_PARALLEL_CLOSURE_INVOCATIONS (CompileResolved c) s))
              = completed (trace s) @ [c])"
proof -
  have inv: "invar MAX_PARALLEL_CLOSURE_INVOCATIONS s"
    unfolding assms(1) by (rule invar_reachable[OF MAX_nonneg])
  note I = invarD[OF inv]
  note S = append_upt_split[OF I(1)]
  let ?m = "length (starts (trace s))"
  have cnt: "count_list (starts (trace s)) j = (if j < ?m then 1 else 0)"
    using S(1) count_list_upt[of ?m j] by simp
  have a: "count_list (starts (trace s)) j \<le> 1" using cnt by simp
  have b: "j \<in> set (queue s)" if "count_list (starts (trace s)) j = 0"
  proof -
    from that cnt have "?m \<le> j" by (simp split: if_splits)
    with assms(2) have "j \<in> set [?m..<length (promises s)]" by simp
    with S(2) show ?thesis by simp
  qed
  have c: "count_list (starts (trace s)) j = 1"
    if lt: "int j < MAX_PARALLEL_CLOSURE_INVOCATIONS + int (length (completed (trace s)))"
  proof (rule ccontr)
    assume "count_list (starts (trace s)) j \<noteq> 1"
    with cnt have mj: "?m \<le> j" by (simp split: if_splits)
    with cnt have "count_list (starts (trace s)) j = 0" by simp
    then have "queue s \<noteq> []" using b by auto
    with I(5) have "inProgress s = MAX_PARALLEL_CLOSURE_INVOCATIONS" by simp
    with I(2) have "int ?m = MAX_PARALLEL_CLOSURE_INVOCATIONS + int (length (completed (trace s)))"
      by simp
    with lt mj show False by simp
  qed
  have d: "int (length (compiling s)) = MAX_PARALLEL_CLOSURE_INVOCATIONS"
    if "exit_code s = None" "queue s \<noteq> []"
    using that I(5,6) by simp
  have e: "exit_code (step MAX_PARALLEL_CLOSURE_INVOCATIONS (CompileResolved c) s) = None
          \<and> completed (trace (step MAX_PARALLEL_CLOSURE_INVOCATIONS (CompileResolved c) s))
              = completed (trace s) @ [c]"
    if "exit_code s = None" "c \<in> set (compiling s)"
    using that
    by (simp add: step_def on_fulfilled_def resolve_def next'_def start_def decrement_def
        write_dot_def settled_def split: list.splits)
  from a b c d e show ?thesis by blast
qed

theorem every_job_starts_once_witness:
  "(5::nat) < length (promises (run MAX_PARALLEL_CLOSURE_INVOCATIONS
      [ClosureCompile, ClosureCompile, ClosureCompile, ClosureCompile, ClosureCompile,
       ClosureCompile, CompileResolved 3, CompileResolved 0] (init False)))
   \<and> int 5 < MAX_PARALLEL_CLOSURE_INVOCATIONS + int (length (completed (trace
      (run MAX_PARALLEL_CLOSURE_INVOCATIONS
      [ClosureCompile, ClosureCompile, ClosureCompile, ClosureCompile, ClosureCompile,
       ClosureCompile, CompileResolved 3, CompileResolved 0] (init False)))))
   \<and> count_list (starts (trace (run MAX_PARALLEL_CLOSURE_INVOCATIONS
      [ClosureCompile, ClosureCompile, ClosureCompile, ClosureCompile, ClosureCompile,
       ClosureCompile, CompileResolved 3, CompileResolved 0] (init False)))) 5 = 1
   \<and> exit_code (run MAX_PARALLEL_CLOSURE_INVOCATIONS
      [ClosureCompile, ClosureCompile, ClosureCompile, ClosureCompile, ClosureCompile,
       ClosureCompile, CompileResolved 3, CompileResolved 0] (init False)) = None
   \<and> 4 \<in> set (compiling (run MAX_PARALLEL_CLOSURE_INVOCATIONS
      [ClosureCompile, ClosureCompile, ClosureCompile, ClosureCompile, ClosureCompile,
       ClosureCompile, CompileResolved 3, CompileResolved 0] (init False)))
   \<and> completed (trace (step MAX_PARALLEL_CLOSURE_INVOCATIONS (CompileResolved 4)
      (run MAX_PARALLEL_CLOSURE_INVOCATIONS
      [ClosureCompile, ClosureCompile, ClosureCompile, ClosureCompile, ClosureCompile,
       ClosureCompile, CompileResolved 3, CompileResolved 0] (init False)))) = [3, 0, 4]
   \<and> queue (run MAX_PARALLEL_CLOSURE_INVOCATIONS
      [ClosureCompile, ClosureCompile, ClosureCompile, ClosureCompile, ClosureCompile,
       ClosureCompile] (init False)) = [4, 5]
   \<and> length (compiling (run MAX_PARALLEL_CLOSURE_INVOCATIONS
      [ClosureCompile, ClosureCompile, ClosureCompile, ClosureCompile, ClosureCompile,
       ClosureCompile] (init False))) = 4
   \<and> count_list (starts (trace (run MAX_PARALLEL_CLOSURE_INVOCATIONS
      [ClosureCompile, ClosureCompile, ClosureCompile, ClosureCompile, ClosureCompile,
       ClosureCompile] (init False)))) 5 = 0"
  using every_job_starts_once [OF refl, where evs =
      "[ClosureCompile, ClosureCompile, ClosureCompile, ClosureCompile, ClosureCompile,
       ClosureCompile, CompileResolved 3, CompileResolved 0]" and t = False and j = 5
      and c = 4]
    every_job_starts_once [OF refl, where evs =
      "[ClosureCompile, ClosureCompile, ClosureCompile, ClosureCompile, ClosureCompile,
       ClosureCompile]" and t = False and j = 5 and c = 0]
  by (simp add: eval_defs)

subsection \<open>No job waits while a slot is free\<close>

text \<open>
  C9. In every state \<open>s\<close> the module can reach, if the queue is not empty then
  \<open>inProgress\<close> equals \<open>MAX_PARALLEL_CLOSURE_INVOCATIONS\<close>, and while the process lives
  \<open>inProgress\<close> is the number of jobs compiling. A call of \<open>closureCompile\<close> in a live
  process starts the new job within the call exactly if \<open>inProgress\<close> is below
  \<open>MAX_PARALLEL_CLOSURE_INVOCATIONS\<close> at the call, and leaves it in the queue exactly if
  not.
\<close>

theorem no_idle_slot_while_waiting:
  assumes "s = run MAX_PARALLEL_CLOSURE_INVOCATIONS evs (init t)"
  shows "(queue s \<noteq> [] \<longrightarrow> inProgress s = MAX_PARALLEL_CLOSURE_INVOCATIONS)
    \<and> (exit_code s = None \<longrightarrow> inProgress s = int (length (compiling s)))
    \<and> (exit_code s = None \<longrightarrow>
          (length (promises s)
              \<in> set (starts (trace (step MAX_PARALLEL_CLOSURE_INVOCATIONS ClosureCompile s)))
           \<longleftrightarrow> inProgress s < MAX_PARALLEL_CLOSURE_INVOCATIONS)
          \<and> (length (promises s)
              \<in> set (queue (step MAX_PARALLEL_CLOSURE_INVOCATIONS ClosureCompile s))
           \<longleftrightarrow> \<not> inProgress s < MAX_PARALLEL_CLOSURE_INVOCATIONS))"
proof -
  have inv: "invar MAX_PARALLEL_CLOSURE_INVOCATIONS s"
    unfolding assms(1) by (rule invar_reachable[OF MAX_nonneg])
  note I = invarD[OF inv]
  note F = starts_queue_facts[OF I(1)]
  have sub: "(length (promises s)
              \<in> set (starts (trace (step MAX_PARALLEL_CLOSURE_INVOCATIONS ClosureCompile s)))
           \<longleftrightarrow> inProgress s < MAX_PARALLEL_CLOSURE_INVOCATIONS)
          \<and> (length (promises s)
              \<in> set (queue (step MAX_PARALLEL_CLOSURE_INVOCATIONS ClosureCompile s))
           \<longleftrightarrow> \<not> inProgress s < MAX_PARALLEL_CLOSURE_INVOCATIONS)"
    if live: "exit_code s = None"
  proof (cases "inProgress s < MAX_PARALLEL_CLOSURE_INVOCATIONS")
    case True
    with I(5) have q: "queue s = []" by auto
    from live have "step MAX_PARALLEL_CLOSURE_INVOCATIONS ClosureCompile s
        = closureCompile MAX_PARALLEL_CLOSURE_INVOCATIONS s"
      by (simp add: step_def)
    then show ?thesis
      unfolding closureCompile_free[OF q True] using True by simp
  next
    case False
    from live have "step MAX_PARALLEL_CLOSURE_INVOCATIONS ClosureCompile s
        = closureCompile MAX_PARALLEL_CLOSURE_INVOCATIONS s"
      by (simp add: step_def)
    then show ?thesis
      unfolding closureCompile_full[OF False] using False F(1) by simp
  qed
  from I(5,6) sub show ?thesis by blast
qed

theorem no_idle_slot_while_waiting_witness:
  "queue (run MAX_PARALLEL_CLOSURE_INVOCATIONS
      [ClosureCompile, ClosureCompile, ClosureCompile, ClosureCompile, ClosureCompile]
      (init False)) = [4]
   \<and> inProgress (run MAX_PARALLEL_CLOSURE_INVOCATIONS
      [ClosureCompile, ClosureCompile, ClosureCompile, ClosureCompile, ClosureCompile]
      (init False)) = MAX_PARALLEL_CLOSURE_INVOCATIONS
   \<and> exit_code (run MAX_PARALLEL_CLOSURE_INVOCATIONS
      [ClosureCompile, ClosureCompile, ClosureCompile, ClosureCompile, ClosureCompile]
      (init False)) = None
   \<and> 5 \<in> set (queue (step MAX_PARALLEL_CLOSURE_INVOCATIONS ClosureCompile
      (run MAX_PARALLEL_CLOSURE_INVOCATIONS
      [ClosureCompile, ClosureCompile, ClosureCompile, ClosureCompile, ClosureCompile]
      (init False))))
   \<and> exit_code (run MAX_PARALLEL_CLOSURE_INVOCATIONS [ClosureCompile] (init False)) = None
   \<and> inProgress (run MAX_PARALLEL_CLOSURE_INVOCATIONS [ClosureCompile] (init False))
       < MAX_PARALLEL_CLOSURE_INVOCATIONS
   \<and> 1 \<in> set (starts (trace (step MAX_PARALLEL_CLOSURE_INVOCATIONS ClosureCompile
      (run MAX_PARALLEL_CLOSURE_INVOCATIONS [ClosureCompile] (init False)))))"
  using no_idle_slot_while_waiting [OF refl, where evs =
      "[ClosureCompile, ClosureCompile, ClosureCompile, ClosureCompile, ClosureCompile]"
      and t = False]
    no_idle_slot_while_waiting [OF refl, where evs = "[ClosureCompile]" and t = False]
  by (simp add: eval_defs)

end
